theory Spec2Isabelle
  imports Complex_Main
begin

section \<open>The elastic frame buffer (FreeQueue)\<close>

text \<open>
  The two processors of \<^verbatim>\<open>synth-processor.js\<close> import \<^verbatim>\<open>FreeQueue\<close> from
  \<^verbatim>\<open>../lib/ring-buffer.js\<close>, a file of the repository that is not among the sources at
  hand. The buffer is therefore modelled from sections 3 and 4.1 of the specification.
  Samples are kept abstract: any type with a zero, the zero being silence.
\<close>

text \<open>
  Modelled from the spec: the state of a \<^verbatim>\<open>FreeQueue\<close> (ring-buffer.js is missing),
  the FrameBuffer of section 3: the per-channel sample arrays, the capacity, a write
  index, a read index and the count of frames held.
\<close>

record 'a FrameBuffer =
  capacity :: nat
  channels :: "'a list list"
  write_index :: nat
  read_index :: nat
  count :: nat

text \<open>
  Modelled from the spec: the constructor of \<^verbatim>\<open>FreeQueue\<close> (ring-buffer.js is missing).
  A fixed set of per-channel sample arrays of capacity C, a write index, a read index and a
  count of frames held; a new buffer holds nothing and its storage is silent.
\<close>

definition FreeQueue :: "nat \<Rightarrow> nat \<Rightarrow> ('a::zero) FrameBuffer" where
  "FreeQueue size' channelCount' =
     \<lparr>capacity = size', channels = replicate channelCount' (replicate size' 0),
      write_index = 0, read_index = 0, count = 0\<rparr>"

text \<open>
  Modelled from the spec: reading element \<open>i\<close> of a source sequence and channel \<open>ch\<close>
  of a block inside \<^verbatim>\<open>push\<close> (ring-buffer.js is missing). The spec speaks only of
  blocks that hold the requested frames; where a block is shorter, or has fewer channels,
  the model reads silence.
\<close>

definition sample :: "('a::zero) list \<Rightarrow> nat \<Rightarrow> 'a" where
  "sample src i = (if i < length src then src ! i else 0)"

definition channel_of :: "'a list list \<Rightarrow> nat \<Rightarrow> 'a list" where
  "channel_of block ch = (if ch < length block then block ! ch else [])"

text \<open>
  Modelled from the spec: the copy loop of \<^verbatim>\<open>push\<close> for one channel (ring-buffer.js is
  missing). It copies \<open>k\<close> frames, frame \<open>i\<close> of the source first, into the storage
  starting at position \<open>w\<close>, the position wrapping modulo the capacity \<open>C\<close>.
\<close>

fun copy_in :: "nat \<Rightarrow> ('a::zero) list \<Rightarrow> nat \<Rightarrow> nat \<Rightarrow> nat \<Rightarrow> 'a list \<Rightarrow> 'a list" where
  "copy_in C src w i 0 buf = buf"
| "copy_in C src w i (Suc k) buf =
     copy_in C src ((w + 1) mod C) (i + 1) k (buf[w := sample src i])"

text \<open>
  Modelled from the spec: the copy loop of \<^verbatim>\<open>pull\<close> for one channel (ring-buffer.js is
  missing). It fills \<open>k\<close> positions of the destination from position \<open>i\<close> on: while frames
  are available (\<open>a\<close> of them, the next at storage position \<open>r\<close>) the frame read from the
  storage, afterwards silence. A position outside the destination is not written.
\<close>

fun copy_out :: "nat \<Rightarrow> ('a::zero) list \<Rightarrow> nat \<Rightarrow> nat \<Rightarrow> nat \<Rightarrow> nat \<Rightarrow> 'a list \<Rightarrow> 'a list" where
  "copy_out C buf r a i 0 dst = dst"
| "copy_out C buf r a i (Suc k) dst =
     (if 0 < a
      then copy_out C buf ((r + 1) mod C) (a - 1) (i + 1) k (dst[i := buf ! r])
      else copy_out C buf r 0 (i + 1) k (dst[i := 0]))"

text \<open>
  Modelled from the spec: \<^verbatim>\<open>push(source, frameCount)\<close> (ring-buffer.js is missing).
  Copies \<open>frameCount\<close> frames of every channel into the buffer at the write position and
  advances the write position and the count, indices wrapping modulo the capacity. The spec
  leaves the overflow policy to the implementer; the policy modelled is the first it names,
  silently dropping the overflow: only the frames that fit, \<open>capacity - count\<close> of them,
  are stored.
\<close>

definition push :: "('a::zero) list list \<Rightarrow> nat \<Rightarrow> 'a FrameBuffer \<Rightarrow> 'a FrameBuffer" where
  "push source frameCount q =
     (let m = min frameCount (capacity q - count q)
      in q\<lparr>channels :=
              map (\<lambda>ch. copy_in (capacity q) (channel_of source ch) (write_index q) 0 m
                          (channels q ! ch))
                  [0..<length (channels q)],
            write_index := (write_index q + m) mod capacity q,
            count := count q + m\<rparr>)"

text \<open>
  Modelled from the spec: \<^verbatim>\<open>pull(destination, frameCount)\<close> (ring-buffer.js is missing).
  Copies \<open>frameCount\<close> frames from the read position into the destination, silence standing
  for the frames that are missing on underrun, and advances the read position and lowers the
  count by the number of frames delivered, so that the count stays within
  \<open>0 \<le> count \<le> C\<close>. The result is the destination as written and the buffer.
\<close>

definition pull :: "('a::zero) list list \<Rightarrow> nat \<Rightarrow> 'a FrameBuffer \<Rightarrow> 'a list list \<times> 'a FrameBuffer" where
  "pull destination frameCount q =
     (let m = min frameCount (count q)
      in (map (\<lambda>ch. if ch < length (channels q)
                     then copy_out (capacity q) (channels q ! ch) (read_index q) (count q)
                            0 frameCount (destination ! ch)
                     else destination ! ch)
              [0..<length destination],
          q\<lparr>read_index := (read_index q + m) mod capacity q,
            count := count q - m\<rparr>))"

text \<open>
  Modelled from the spec: \<^verbatim>\<open>framesAvailable()\<close> returns the count, and the adapter's
  test \<^verbatim>\<open>isFrameAvailable(n)\<close> is the spec's \<open>framesAvailable() \<ge> n\<close>
  (ring-buffer.js is missing).
\<close>

definition framesAvailable :: "'a FrameBuffer \<Rightarrow> nat" where
  "framesAvailable q = count q"

definition isFrameAvailable :: "nat \<Rightarrow> 'a FrameBuffer \<Rightarrow> bool" where
  "isFrameAvailable n q = (n \<le> framesAvailable q)"

text \<open>
  Modelled from the spec: \<^verbatim>\<open>getChannelData()\<close>, which the spec does not describe
  (ring-buffer.js is missing). Called without a channel on the one-channel buffer of the
  synthesizer it is taken to expose the storage of the first channel, and a write through
  that view changes the storage in place.
\<close>

definition getChannelData :: "'a FrameBuffer \<Rightarrow> 'a list" where
  "getChannelData q = (case channels q of [] \<Rightarrow> [] | c # _ \<Rightarrow> c)"

text \<open>
  Modelled from the spec: a write through the view that \<^verbatim>\<open>getChannelData()\<close> exposes
  (ring-buffer.js is missing); it replaces the storage of the first channel.
\<close>

definition setChannelData :: "'a list \<Rightarrow> 'a FrameBuffer \<Rightarrow> 'a FrameBuffer" where
  "setChannelData c q = (case channels q of [] \<Rightarrow> q | _ # cs \<Rightarrow> q\<lparr>channels := c # cs\<rparr>)"

subsection \<open>Invariant and abstraction\<close>

text \<open>
  The data-model invariant of section 3 of the spec, \<open>0 \<le> count \<le> C\<close> with both indices
  below \<open>C\<close>, together with the shape of the storage and the relation between the indices
  that the operations maintain.
\<close>

definition well_formed :: "'a FrameBuffer \<Rightarrow> bool" where
  "well_formed q \<longleftrightarrow>
     0 < capacity q \<and> count q \<le> capacity q \<and> read_index q < capacity q \<and>
     write_index q = (read_index q + count q) mod capacity q \<and>
     list_all (\<lambda>c. length c = capacity q) (channels q)"

text \<open>The frames a channel holds, oldest first.\<close>

definition held :: "'a FrameBuffer \<Rightarrow> nat \<Rightarrow> 'a list" where
  "held q ch =
     map (\<lambda>i. channels q ! ch ! ((read_index q + i) mod capacity q)) [0..<count q]"

text \<open>The first \<open>n\<close> frames of channel \<open>ch\<close> of a block, as \<^const>\<open>push\<close> reads them.\<close>

definition frames :: "('a::zero) list list \<Rightarrow> nat \<Rightarrow> nat \<Rightarrow> 'a list" where
  "frames block ch n = map (sample (channel_of block ch)) [0..<n]"

text \<open>A run of pushes, each a source block with its frame count.\<close>

fun push_all :: "(('a::zero) list list \<times> nat) list \<Rightarrow> 'a FrameBuffer \<Rightarrow> 'a FrameBuffer" where
  "push_all [] q = q"
| "push_all ((source, n) # ps) q = push_all ps (push source n q)"

text \<open>An interleaving of pushes of size \<open>P\<close> and pulls of size \<open>Q\<close>.\<close>

datatype 'a queue_op = Push "'a list list" | Pull "'a list list"

fun run_ops :: "nat \<Rightarrow> nat \<Rightarrow> ('a::zero) queue_op list \<Rightarrow> 'a FrameBuffer \<Rightarrow> 'a FrameBuffer" where
  "run_ops P Q [] q = q"
| "run_ops P Q (Push source # ops) q = run_ops P Q ops (push source P q)"
| "run_ops P Q (Pull destination # ops) q = run_ops P Q ops (snd (pull destination Q q))"

fun is_push :: "'a queue_op \<Rightarrow> bool" where
  "is_push (Push _) = True"
| "is_push (Pull _) = False"

text \<open>
  The count the accounting of \<^const>\<open>push\<close> and \<^const>\<open>pull\<close> predicts: clamped at every
  operation, at the capacity by a push and at zero by a pull.
\<close>

fun clamped_count :: "nat \<Rightarrow> nat \<Rightarrow> nat \<Rightarrow> 'a queue_op list \<Rightarrow> nat \<Rightarrow> nat" where
  "clamped_count C P Q [] c = c"
| "clamped_count C P Q (Push _ # ops) c = clamped_count C P Q ops (min C (c + P))"
| "clamped_count C P Q (Pull _ # ops) c = clamped_count C P Q ops (c - Q)"

text \<open>No operation of the interleaving overflows or underruns, starting from count \<open>c\<close>.\<close>

fun never_clamped :: "nat \<Rightarrow> nat \<Rightarrow> nat \<Rightarrow> 'a queue_op list \<Rightarrow> nat \<Rightarrow> bool" where
  "never_clamped C P Q [] c = True"
| "never_clamped C P Q (Push _ # ops) c = (c + P \<le> C \<and> never_clamped C P Q ops (c + P))"
| "never_clamped C P Q (Pull _ # ops) c = (Q \<le> c \<and> never_clamped C P Q ops (c - Q))"

text \<open>
  The value the spec's testable property gives for \<open>framesAvailable()\<close> after \<open>N\<close>
  pushes of size \<open>P\<close> and \<open>M\<close> pulls of size \<open>Q\<close>, in any order, on a buffer of
  capacity \<open>C\<close>: \<open>N \<cdot> P - M \<cdot> Q\<close>, clamped to the interval from 0 to \<open>C\<close>.
\<close>

definition claimed_frames_available :: "nat \<Rightarrow> nat \<Rightarrow> nat \<Rightarrow> 'a queue_op list \<Rightarrow> int" where
  "claimed_frames_available C P Q ops =
     max 0 (min (int C)
       (int (length (filter is_push ops)) * int P
        - int (length (filter (\<lambda>op. \<not> is_push op) ops)) * int Q))"

section \<open>SynthProcessor\<close>

text \<open>Web Audio API's render block size.\<close>

definition NUM_FRAMES :: nat where
  "NUM_FRAMES = 128"

text \<open>
  The payload of a control message is any value that a message port delivers. Only its
  truthiness matters to the handler: \<^verbatim>\<open>false\<close>, zero, \<^verbatim>\<open>NaN\<close>, the empty string,
  \<^verbatim>\<open>null\<close> and \<^verbatim>\<open>undefined\<close> are falsy, everything else is truthy.
\<close>

datatype js_number = NaN | Infinity bool | Finite real

datatype js_value =
    Undefined
  | Null
  | Boolean bool
  | Number js_number
  | BigInt int
  | String string
  | Object

fun truthy :: "js_value \<Rightarrow> bool" where
  "truthy Undefined = False"
| "truthy Null = False"
| "truthy (Boolean b) = b"
| "truthy (Number NaN) = False"
| "truthy (Number (Infinity _)) = True"
| "truthy (Number (Finite x)) = (x \<noteq> 0)"
| "truthy (BigInt n) = (n \<noteq> 0)"
| "truthy (String s) = (s \<noteq> [])"
| "truthy Object = True"

record message_event =
  data :: js_value

text \<open>
  The synthesizer is a WebAssembly object. Its state is the history of the calls made on
  it, which is all that the processor can influence. The processor keeps it in the field
  \<^verbatim>\<open>_freeQueue\<close>, and the buffer it renders into in \<^verbatim>\<open>_combinedBuffer\<close>.
\<close>

datatype synth_call = Render nat | NoteOn nat | NoteOff nat

record 'a SynthProcessor =
  freeQueue :: "synth_call list"
  combinedBuffer :: "'a FrameBuffer"

definition SynthProcessor_new :: "('a::zero) SynthProcessor" where
  "SynthProcessor_new = \<lparr>freeQueue = [], combinedBuffer = FreeQueue NUM_FRAMES 1\<rparr>"

definition noteOn :: "nat \<Rightarrow> 'a SynthProcessor \<Rightarrow> 'a SynthProcessor" where
  "noteOn n p = p\<lparr>freeQueue := freeQueue p @ [NoteOn n]\<rparr>"

definition noteOff :: "nat \<Rightarrow> 'a SynthProcessor \<Rightarrow> 'a SynthProcessor" where
  "noteOff n p = p\<lparr>freeQueue := freeQueue p @ [NoteOff n]\<rparr>"

definition playTone :: "message_event \<Rightarrow> 'a SynthProcessor \<Rightarrow> 'a SynthProcessor" where
  "playTone event p =
     (let isDown = data event
      in if truthy isDown then noteOn 60 p else noteOff 60 p)"

text \<open>
  Writing a sequence through a typed-array view: the view keeps its length, what lies
  beyond it is not written.
\<close>

definition overwrite :: "'a list \<Rightarrow> 'a list \<Rightarrow> 'a list" where
  "overwrite new old = take (length old) new @ drop (length new) old"

datatype js_error = TypeError | RangeError

text \<open>
  \<^verbatim>\<open>TypedArray.prototype.set\<close>: a source longer than the target is a RangeError.
\<close>

definition typed_array_set :: "'a list \<Rightarrow> 'a list \<Rightarrow> js_error + 'a list" where
  "typed_array_set target source =
     (if length target < length source then Inl RangeError
      else Inr (source @ drop (length source) target))"

text \<open>
  \<^verbatim>\<open>SynthProcessor.process\<close>. The parameter \<open>render\<close> is what the synthesizer writes
  into the view it is given, as a function of the calls made on it so far. Indexing
  \<^verbatim>\<open>outputs[0][0]\<close> with no first output is a TypeError, as is calling \<^verbatim>\<open>set\<close> on a
  missing first channel.
\<close>

definition SynthProcessor_process ::
  "(synth_call list \<Rightarrow> 'a list \<Rightarrow> nat \<Rightarrow> 'a list) \<Rightarrow> 'a SynthProcessor \<Rightarrow> 'a list list list
     \<Rightarrow> js_error + ('a SynthProcessor \<times> 'a list list list \<times> bool)" where
  "SynthProcessor_process render p outputs =
     (case outputs of
        [] \<Rightarrow> Inl TypeError
      | output # rest \<Rightarrow>
          (case output of
             [] \<Rightarrow> Inl TypeError
           | outputBuffer # others \<Rightarrow>
               (let view = getChannelData (combinedBuffer p);
                    rendered = overwrite (render (freeQueue p) view NUM_FRAMES) view;
                    p' = p\<lparr>freeQueue := freeQueue p @ [Render NUM_FRAMES],
                           combinedBuffer := setChannelData rendered (combinedBuffer p)\<rparr>
                in case typed_array_set outputBuffer (getChannelData (combinedBuffer p')) of
                     Inl e \<Rightarrow> Inl e
                   | Inr written \<Rightarrow> Inr (p', (written # others) # rest, True))))"

section \<open>RingBufferWorkletProcessor\<close>

text \<open>
  The operations the processor invokes on its buffer and its kernel, with the frame count
  passed to the buffer.
\<close>

datatype call = CallPush nat | CallPull nat | CallKernelProcess

text \<open>
  A \<^verbatim>\<open>Float32Array\<close> view on an \<^verbatim>\<open>ArrayBuffer\<close>: where it starts, in bytes, and how many
  elements it has. The constructor, given the byte length of the buffer, refuses a start
  that is not a multiple of the element size, 4, and a view that reaches beyond the end
  of the buffer; both are a RangeError.
\<close>

record float32_view =
  byteOffset :: nat
  view_length :: nat

definition Float32Array :: "nat \<Rightarrow> nat \<Rightarrow> nat \<Rightarrow> js_error + float32_view" where
  "Float32Array bufferByteLength byteOffset' length' =
     (if byteOffset' mod 4 \<noteq> 0 then Inl RangeError
      else if bufferByteLength < byteOffset' + 4 * length' then Inl RangeError
      else Inr \<lparr>byteOffset = byteOffset', view_length = length'\<rparr>)"

text \<open>
  The WebAssembly memory is a sequence of 4-byte cells, each a sample. The two staging
  areas are views on it of \<open>kernelBufferSize * channelCount\<close> elements each: the input
  area at byte 0, the output area at byte \<open>kernelBufferSize * channelCount\<close>, so that the
  two overlap. The kernel is opaque: \<open>'k\<close> is its state. The field \<open>calls\<close> is a ghost
  field: the buffer and kernel operations invoked so far, in order.
\<close>

record ('a, 'k) RingBufferWorkletProcessor =
  kernelBufferSize :: nat
  channelCount :: nat
  buffer :: "'a FrameBuffer"
  memory :: "'a list"
  heapInputBuffer :: float32_view
  heapOutputBuffer :: float32_view
  kernel :: 'k
  calls :: "call list"

text \<open>
  The constructor, lines 80 to 98. Its arguments are the two processor options, the
  WebAssembly memory as it is when the processor is made, and the state of the kernel that
  \<^verbatim>\<open>new Module.VariableBufferKernel\<close> returns. It fails where a view cannot be made.
\<close>

definition RingBufferWorkletProcessor_new ::
  "nat \<Rightarrow> nat \<Rightarrow> 'a list \<Rightarrow> 'k \<Rightarrow> js_error + ('a::zero, 'k) RingBufferWorkletProcessor" where
  "RingBufferWorkletProcessor_new kernelBufferSize' channelCount' memory' kernel' =
     (case Float32Array (4 * length memory') 0 (kernelBufferSize' * channelCount') of
        Inl e \<Rightarrow> Inl e
      | Inr heapIn \<Rightarrow>
          (case Float32Array (4 * length memory') (kernelBufferSize' * channelCount')
                  (kernelBufferSize' * channelCount') of
             Inl e \<Rightarrow> Inl e
           | Inr heapOut \<Rightarrow>
               Inr \<lparr>kernelBufferSize = kernelBufferSize', channelCount = channelCount',
                    buffer = FreeQueue kernelBufferSize' channelCount',
                    memory = memory',
                    heapInputBuffer = heapIn, heapOutputBuffer = heapOut,
                    kernel = kernel', calls = []\<rparr>))"

text \<open>
  Modelled from the spec: how the buffer's \<^verbatim>\<open>push\<close> and \<^verbatim>\<open>pull\<close>, which take one
  sequence per channel, see a staging area (ring-buffer.js is missing). The spec has the
  adapter pull \<open>K\<close> frames per channel into the kernel-input staging area and push the
  \<open>K\<close> frames per channel of the kernel's output; the flat view is read as one run of
  \<open>K\<close> cells per channel, the channels one after the other, and a block is stored into
  it the same way.
\<close>

definition view_block :: "'a list \<Rightarrow> float32_view \<Rightarrow> nat \<Rightarrow> nat \<Rightarrow> 'a list list" where
  "view_block mem v K C =
     map (\<lambda>ch. take K (drop (byteOffset v div 4 + ch * K) mem)) [0..<C]"

definition store_block :: "'a list \<Rightarrow> float32_view \<Rightarrow> nat \<Rightarrow> 'a list list \<Rightarrow> 'a list" where
  "store_block mem v K block =
     map (\<lambda>j. if byteOffset v div 4 \<le> j \<and>
                  j - byteOffset v div 4 < K * length block \<and>
                  (j - byteOffset v div 4) mod K
                    < length (block ! ((j - byteOffset v div 4) div K))
               then block ! ((j - byteOffset v div 4) div K) ! ((j - byteOffset v div 4) mod K)
               else mem ! j)
         [0..<length mem]"

text \<open>Line 116: \<^verbatim>\<open>this._buffer.push(input, this._kernelBufferSize)\<close>.\<close>

definition host_push ::
  "('a::zero, 'k) RingBufferWorkletProcessor \<Rightarrow> 'a list list \<Rightarrow> ('a, 'k) RingBufferWorkletProcessor" where
  "host_push p input =
     p\<lparr>buffer := push input (kernelBufferSize p) (buffer p),
       calls := calls p @ [CallPush (kernelBufferSize p)]\<rparr>"

text \<open>
  Lines 119 to 132: the conditional around the kernel. The parameter \<open>kernel_process\<close> is
  the kernel's process function. It is called with the byte offsets of the two staging
  areas and the channel count; the model hands it its state and the memory as well, and
  takes from it the new state and what it leaves in the memory, which keeps its length.
\<close>

definition kernel_step ::
  "('k \<Rightarrow> 'a list \<Rightarrow> nat \<Rightarrow> nat \<Rightarrow> nat \<Rightarrow> 'k \<times> 'a list)
     \<Rightarrow> ('a::zero, 'k) RingBufferWorkletProcessor \<Rightarrow> ('a, 'k) RingBufferWorkletProcessor" where
  "kernel_step kernel_process p =
     (if isFrameAvailable (kernelBufferSize p) (buffer p)
      then
        (let (heapIn, b1) =
                pull (view_block (memory p) (heapInputBuffer p) (kernelBufferSize p)
                        (channelCount p))
                     (kernelBufferSize p) (buffer p);
             staged = store_block (memory p) (heapInputBuffer p) (kernelBufferSize p) heapIn;
             (kernel', written) =
                kernel_process (kernel p) staged (byteOffset (heapInputBuffer p))
                  (byteOffset (heapOutputBuffer p)) (channelCount p);
             memory' = overwrite written staged;
             b2 = push (view_block memory' (heapOutputBuffer p) (kernelBufferSize p)
                          (channelCount p))
                       (kernelBufferSize p) b1
         in p\<lparr>buffer := b2, memory := memory', kernel := kernel',
              calls := calls p @ [CallPull (kernelBufferSize p), CallKernelProcess,
                                  CallPush (kernelBufferSize p)]\<rparr>)
      else p)"

text \<open>Line 145: \<^verbatim>\<open>this._buffer.pull(output, this._kernelBufferSize)\<close>.\<close>

definition host_pull ::
  "('a::zero, 'k) RingBufferWorkletProcessor \<Rightarrow> 'a list list
     \<Rightarrow> 'a list list \<times> ('a, 'k) RingBufferWorkletProcessor" where
  "host_pull p output =
     (let (written, b) = pull output (kernelBufferSize p) (buffer p)
      in (written, p\<lparr>buffer := b, calls := calls p @ [CallPull (kernelBufferSize p)]\<rparr>))"

text \<open>
  \<^verbatim>\<open>RingBufferWorkletProcessor.process\<close>. The arguments \<open>input\<close> and \<open>output\<close> are the
  first input and the first output of the host, \<^verbatim>\<open>inputs[0]\<close> and \<^verbatim>\<open>outputs[0]\<close>, each
  an array of channels; the function does nothing with them but hand them to the buffer.
  The result is the processor, the output block as written and the returned flag.
\<close>

definition RingBufferWorkletProcessor_process ::
  "('k \<Rightarrow> 'a list \<Rightarrow> nat \<Rightarrow> nat \<Rightarrow> nat \<Rightarrow> 'k \<times> 'a list)
     \<Rightarrow> ('a::zero, 'k) RingBufferWorkletProcessor \<Rightarrow> 'a list list \<Rightarrow> 'a list list
     \<Rightarrow> ('a, 'k) RingBufferWorkletProcessor \<times> 'a list list \<times> bool" where
  "RingBufferWorkletProcessor_process kernel_process p input output =
     (let p1 = host_push p input;
          p2 = kernel_step kernel_process p1;
          (written, p3) = host_pull p2 output
      in (p3, written, True))"

text \<open>How often a trace of calls invokes the kernel, and the frames it pushes and pulls.\<close>

fun kernel_calls :: "call list \<Rightarrow> nat" where
  "kernel_calls [] = 0"
| "kernel_calls (CallKernelProcess # cs) = Suc (kernel_calls cs)"
| "kernel_calls (_ # cs) = kernel_calls cs"

fun pushed_frames :: "call list \<Rightarrow> nat" where
  "pushed_frames [] = 0"
| "pushed_frames (CallPush n # cs) = n + pushed_frames cs"
| "pushed_frames (_ # cs) = pushed_frames cs"

fun pulled_frames :: "call list \<Rightarrow> nat" where
  "pulled_frames [] = 0"
| "pulled_frames (CallPull n # cs) = n + pulled_frames cs"
| "pulled_frames (_ # cs) = pulled_frames cs"

subsection \<open>Example inputs\<close>

text \<open>
  Inputs for the examples: a WebAssembly memory of one page (65536 bytes, 16384 cells),
  all zero; a kernel that writes 100 into the four cells at its output offset and keeps no
  state; the processor the constructor builds for \<open>kernelBufferSize = 4\<close> and one channel
  on that memory; and the one it builds for \<open>kernelBufferSize = 512\<close>.
\<close>

abbreviation one_page :: "int list" where
  "one_page \<equiv> replicate 16384 0"

abbreviation writes_100 :: "unit \<Rightarrow> int list \<Rightarrow> nat \<Rightarrow> nat \<Rightarrow> nat \<Rightarrow> unit \<times> int list" where
  "writes_100 \<equiv> \<lambda>k mem inPtr outPtr n.
     (k, take (outPtr div 4) mem @ replicate 4 100 @ drop (outPtr div 4 + 4) mem)"

abbreviation processor_4 :: "(int, unit) RingBufferWorkletProcessor" where
  "processor_4 \<equiv> projr (RingBufferWorkletProcessor_new 4 1 one_page ())"

abbreviation processor_512 :: "(int, unit) RingBufferWorkletProcessor" where
  "processor_512 \<equiv> projr (RingBufferWorkletProcessor_new 512 1 one_page ())"

section \<open>The control message handler\<close>

text \<open>
  C10: for every control message the handler invokes \<open>noteOn(60)\<close> when the payload is
  truthy and \<open>noteOff(60)\<close> when it is falsy; whatever the message holds, the note number
  passed to the synthesizer is 60.
\<close>

theorem playTone_note_60:
  "freeQueue (playTone event p) =
     freeQueue p @ [if truthy (data event) then NoteOn 60 else NoteOff 60]"
  by (simp add: playTone_def noteOn_def noteOff_def)

section \<open>The copy loops\<close>

text \<open>
  Both loops keep the length of what they write into, and each position they leave holds
  what the description of the loop says: a wrapped position of the storage holds the source
  frame, a position of the destination the frame read or silence.
\<close>

lemma mod_wrap: "(a::nat) < 2 * C \<Longrightarrow> a mod C = (if a < C then a else a - C)"
  by (simp add: mod_if)

lemma length_copy_in [simp]: "length (copy_in C src w i k buf) = length buf"
  by (induction k arbitrary: w i buf) simp_all

lemma length_copy_out [simp]: "length (copy_out C buf r a i k dst) = length dst"
  by (induction k arbitrary: r a i dst) simp_all

lemma copy_in_nth:
  "w < C \<Longrightarrow> k \<le> C \<Longrightarrow> t < C \<Longrightarrow> length buf = C \<Longrightarrow>
   copy_in C src w i k buf ! ((w + t) mod C) =
     (if t < k then sample src (i + t) else buf ! ((w + t) mod C))"
proof (induction k arbitrary: w i buf t)
  case 0
  then show ?case by simp
next
  case (Suc k)
  let ?w' = "(w + 1) mod C"
  let ?buf' = "buf[w := sample src i]"
  have w': "?w' < C" using Suc.prems by simp
  have len: "length ?buf' = C" using Suc.prems by simp
  have k: "k \<le> C" using Suc.prems by simp
  show ?case
  proof (cases "t = 0")
    case True
    have c1: "C - 1 < C" using Suc.prems by arith
    have nk: "\<not> C - 1 < k" using Suc.prems by arith
    have pos: "(?w' + (C - 1)) mod C = w"
      using Suc.prems by (auto simp: mod_wrap)
    have "copy_in C src ?w' (i + 1) k ?buf' ! ((?w' + (C - 1)) mod C) =
          (if C - 1 < k then sample src (i + 1 + (C - 1)) else ?buf' ! ((?w' + (C - 1)) mod C))"
      by (rule Suc.IH [OF w' k c1 len])
    then have "copy_in C src ?w' (i + 1) k ?buf' ! w = ?buf' ! w"
      unfolding pos using nk by simp
    moreover have "?buf' ! w = sample src i" using Suc.prems by simp
    moreover have "(w + t) mod C = w" using True Suc.prems by simp
    ultimately show ?thesis using True by simp
  next
    case False
    have t1: "t - 1 < C" using Suc.prems by arith
    have e: "w + 1 + (t - 1) = w + t" using False by arith
    have pos: "(?w' + (t - 1)) mod C = (w + t) mod C"
      by (simp only: mod_add_left_eq e)
    have ne: "(w + t) mod C \<noteq> w"
      using False Suc.prems by (auto simp: mod_wrap)
    have "copy_in C src ?w' (i + 1) k ?buf' ! ((?w' + (t - 1)) mod C) =
          (if t - 1 < k then sample src (i + 1 + (t - 1)) else ?buf' ! ((?w' + (t - 1)) mod C))"
      by (rule Suc.IH [OF w' k t1 len])
    then have "copy_in C src ?w' (i + 1) k ?buf' ! ((w + t) mod C) =
          (if t - 1 < k then sample src (i + 1 + (t - 1)) else ?buf' ! ((w + t) mod C))"
      unfolding pos .
    moreover have "?buf' ! ((w + t) mod C) = buf ! ((w + t) mod C)"
      using ne by simp
    moreover have "i + 1 + (t - 1) = i + t" using False by arith
    moreover have "t - 1 < k \<longleftrightarrow> t < Suc k" using False by arith
    ultimately show ?thesis by simp
  qed
qed

lemma copy_out_nth:
  "r < C \<Longrightarrow> j < length dst \<Longrightarrow>
   copy_out C buf r a i k dst ! j =
     (if i \<le> j \<and> j < i + k
      then (if j - i < a then buf ! ((r + (j - i)) mod C) else 0)
      else dst ! j)"
proof (induction k arbitrary: r a i dst)
  case 0
  then show ?case by auto
next
  case (Suc k)
  show ?case
  proof (cases "0 < a")
    case True
    let ?dst' = "dst[i := buf ! r]"
    have r': "(r + 1) mod C < C" using Suc.prems by simp
    have j': "j < length ?dst'" using Suc.prems by simp
    have IH: "copy_out C buf ((r + 1) mod C) (a - 1) (i + 1) k ?dst' ! j =
       (if i + 1 \<le> j \<and> j < i + 1 + k
        then (if j - (i + 1) < a - 1 then buf ! (((r + 1) mod C + (j - (i + 1))) mod C) else 0)
        else ?dst' ! j)"
      by (rule Suc.IH [OF r' j'])
    show ?thesis
    proof (cases "i < j")
      case lt: True
      have e: "r + 1 + (j - (i + 1)) = r + (j - i)" using lt by arith
      have pos: "((r + 1) mod C + (j - (i + 1))) mod C = (r + (j - i)) mod C"
        by (simp only: mod_add_left_eq e)
      have "j - (i + 1) < a - 1 \<longleftrightarrow> j - i < a" using lt True by arith
      then show ?thesis using True lt IH unfolding pos by auto
    next
      case ge: False
      show ?thesis
      proof (cases "j = i")
        case eq: True
        then show ?thesis using True IH Suc.prems by simp
      next
        case False
        then show ?thesis using True ge IH by simp
      qed
    qed
  next
    case False
    let ?dst' = "dst[i := 0]"
    have j': "j < length ?dst'" using Suc.prems by simp
    have IH: "copy_out C buf r 0 (i + 1) k ?dst' ! j =
       (if i + 1 \<le> j \<and> j < i + 1 + k
        then (if j - (i + 1) < 0 then buf ! ((r + (j - (i + 1))) mod C) else 0)
        else ?dst' ! j)"
      by (rule Suc.IH [OF _ j']) (use Suc.prems in simp)
    show ?thesis
      using False IH Suc.prems by (cases "j = i") (auto simp: nth_list_update)
  qed
qed

section \<open>The accounting of pull and push\<close>

lemma pull_count: "count (snd (pull destination n q)) = count q - n"
  by (simp add: pull_def Let_def)

lemma pull_capacity: "capacity (snd (pull destination n q)) = capacity q"
  by (simp add: pull_def Let_def)

lemma pull_channels: "channels (snd (pull destination n q)) = channels q"
  by (simp add: pull_def Let_def)

lemma pull_read_index:
  "read_index (snd (pull destination n q)) = (read_index q + min n (count q)) mod capacity q"
  by (simp add: pull_def Let_def)

lemma pull_write_index: "write_index (snd (pull destination n q)) = write_index q"
  by (simp add: pull_def Let_def)


lemma push_count: "count (push source n q) = count q + min n (capacity q - count q)"
  by (simp add: push_def Let_def)

lemma push_capacity: "capacity (push source n q) = capacity q"
  by (simp add: push_def Let_def)

lemma push_read_index: "read_index (push source n q) = read_index q"
  by (simp add: push_def Let_def)

lemma push_write_index:
  "write_index (push source n q) = (write_index q + min n (capacity q - count q)) mod capacity q"
  by (simp add: push_def Let_def)

lemma length_push_channels: "length (channels (push source n q)) = length (channels q)"
  by (simp add: push_def Let_def)

lemma push_channel:
  "ch < length (channels q) \<Longrightarrow>
   channels (push source n q) ! ch =
     copy_in (capacity q) (channel_of source ch) (write_index q) 0
       (min n (capacity q - count q)) (channels q ! ch)"
  by (simp add: push_def Let_def)

lemma well_formed_channel_length:
  "well_formed q \<Longrightarrow> ch < length (channels q) \<Longrightarrow> length (channels q ! ch) = capacity q"
  by (simp add: well_formed_def list_all_length)

lemma well_formed_pull: "well_formed q \<Longrightarrow> well_formed (snd (pull destination n q))"
proof -
  assume q: "well_formed q"
  let ?C = "capacity q" and ?r = "read_index q" and ?c = "count q"
  let ?m = "min n ?c"
  from q have C: "0 < ?C" and cC: "?c \<le> ?C" and w: "write_index q = (?r + ?c) mod ?C"
    and chs: "list_all (\<lambda>c. length c = ?C) (channels q)"
    by (simp_all add: well_formed_def)
  have e: "?r + ?m + (?c - n) = ?r + ?c" by arith
  have "((?r + ?m) mod ?C + (?c - n)) mod ?C = (?r + ?c) mod ?C"
    by (simp only: mod_add_left_eq e)
  moreover have "?c - n \<le> ?C" using cC by arith
  ultimately show ?thesis
    using C w chs
    by (simp add: well_formed_def pull_count pull_capacity pull_channels pull_read_index
        pull_write_index)
qed

lemma well_formed_push: "well_formed q \<Longrightarrow> well_formed (push source n q)"
proof -
  assume q: "well_formed q"
  let ?C = "capacity q" and ?r = "read_index q" and ?c = "count q"
  let ?m = "min n (?C - ?c)"
  from q have C: "0 < ?C" and cC: "?c \<le> ?C" and r: "?r < ?C"
    and w: "write_index q = (?r + ?c) mod ?C"
    by (simp_all add: well_formed_def)
  have e: "?r + ?c + ?m = ?r + (?c + ?m)" by arith
  have w': "((?r + ?c) mod ?C + ?m) mod ?C = (?r + (?c + ?m)) mod ?C"
    by (simp only: mod_add_left_eq e)
  have c: "?c + ?m \<le> ?C" using cC by arith
  have "list_all (\<lambda>c. length c = ?C) (channels (push source n q))"
    using q by (simp add: list_all_length length_push_channels push_channel well_formed_channel_length)
  then show ?thesis
    using C r w w' c
    by (simp add: well_formed_def push_count push_capacity push_read_index push_write_index)
qed


lemma nth_take_append_drop:
  "length xs = n \<Longrightarrow> j < length d \<Longrightarrow>
   (take (length d) xs @ drop n d) ! j = (if j < n then xs ! j else d ! j)"
  by (auto simp: nth_append min_def)

lemma pull_destination:
  assumes "well_formed q" and "ch < length destination" and "ch < length (channels q)"
  shows "fst (pull destination n q) ! ch =
           take (length (destination ! ch)) (take n (held q ch) @ replicate (n - count q) 0)
           @ drop n (destination ! ch)"
proof (rule nth_equalityI)
  let ?d = "destination ! ch"
  let ?xs = "take n (held q ch) @ replicate (n - count q) 0"
  have out: "fst (pull destination n q) ! ch =
               copy_out (capacity q) (channels q ! ch) (read_index q) (count q) 0 n ?d"
    using assms by (simp add: pull_def Let_def)
  have len: "length ?xs = n"
    by (simp add: held_def)
  show "length (fst (pull destination n q) ! ch) = length (take (length ?d) ?xs @ drop n ?d)"
    unfolding out by (simp add: held_def)
  fix j
  assume "j < length (fst (pull destination n q) ! ch)"
  then have j: "j < length ?d" unfolding out by simp
  have r: "read_index q < capacity q" using assms by (simp add: well_formed_def)
  have L: "fst (pull destination n q) ! ch ! j =
        (if j < n then (if j < count q
                        then channels q ! ch ! ((read_index q + j) mod capacity q) else 0)
         else ?d ! j)"
    unfolding out using copy_out_nth [OF r j, of "channels q ! ch" "count q" 0 n] by simp
  have xs: "j < n \<Longrightarrow> ?xs ! j =
        (if j < count q then channels q ! ch ! ((read_index q + j) mod capacity q) else 0)"
    by (simp add: nth_append held_def)
  have R: "(take (length ?d) ?xs @ drop n ?d) ! j = (if j < n then ?xs ! j else ?d ! j)"
    by (rule nth_take_append_drop [OF len j])
  show "fst (pull destination n q) ! ch ! j = (take (length ?d) ?xs @ drop n ?d) ! j"
    unfolding L R using xs by simp
qed

lemma held_push:
  assumes q: "well_formed q" and ch: "ch < length (channels q)"
  shows "held (push source n q) ch =
           held q ch @ frames source ch (min n (capacity q - count q))"
proof (rule nth_equalityI)
  let ?C = "capacity q" and ?r = "read_index q" and ?c = "count q"
  let ?m = "min n (?C - ?c)"
  let ?w = "write_index q"
  let ?buf = "channels q ! ch"
  let ?src = "channel_of source ch"
  show "length (held (push source n q) ch) = length (held q ch @ frames source ch ?m)"
    by (simp add: held_def frames_def push_count)
  from q have C: "0 < ?C" and cC: "?c \<le> ?C" and w: "?w = (?r + ?c) mod ?C"
    by (simp_all add: well_formed_def)
  have wC: "?w < ?C" using C w by simp
  have mC: "?m \<le> ?C" by arith
  have len: "length ?buf = ?C" using q ch by (rule well_formed_channel_length)
  fix i
  assume "i < length (held (push source n q) ch)"
  then have i: "i < ?c + ?m" by (simp add: held_def push_count)
  have L: "held (push source n q) ch ! i =
           copy_in ?C ?src ?w 0 ?m ?buf ! ((?r + i) mod ?C)"
    using i ch by (simp add: held_def push_count push_capacity push_read_index push_channel)
  show "held (push source n q) ch ! i = (held q ch @ frames source ch ?m) ! i"
  proof (cases "i < ?c")
    case True
    let ?t = "?C - ?c + i"
    have t: "?t < ?C" using True cC by arith
    have e: "?r + ?c + ?t = ?r + i + ?C" using cC by arith
    have pos: "(?w + ?t) mod ?C = (?r + i) mod ?C"
      unfolding w by (simp only: mod_add_left_eq e mod_add_self2)
    have nt: "\<not> ?t < ?m" by arith
    have "copy_in ?C ?src ?w 0 ?m ?buf ! ((?w + ?t) mod ?C) =
          (if ?t < ?m then sample ?src (0 + ?t) else ?buf ! ((?w + ?t) mod ?C))"
      by (rule copy_in_nth [OF wC mC t len])
    then have "copy_in ?C ?src ?w 0 ?m ?buf ! ((?r + i) mod ?C) = ?buf ! ((?r + i) mod ?C)"
      unfolding pos using nt by simp
    moreover have "(held q ch @ frames source ch ?m) ! i = ?buf ! ((?r + i) mod ?C)"
      using True by (simp add: nth_append held_def)
    ultimately show ?thesis unfolding L by simp
  next
    case False
    let ?t = "i - ?c"
    have tm: "?t < ?m" using False i by arith
    then have t: "?t < ?C" using mC by arith
    have e: "?r + ?c + ?t = ?r + i" using False by arith
    have pos: "(?w + ?t) mod ?C = (?r + i) mod ?C"
      unfolding w by (simp only: mod_add_left_eq e)
    have "copy_in ?C ?src ?w 0 ?m ?buf ! ((?w + ?t) mod ?C) =
          (if ?t < ?m then sample ?src (0 + ?t) else ?buf ! ((?w + ?t) mod ?C))"
      by (rule copy_in_nth [OF wC mC t len])
    then have "copy_in ?C ?src ?w 0 ?m ?buf ! ((?r + i) mod ?C) = sample ?src ?t"
      unfolding pos using tm by simp
    moreover have "(held q ch @ frames source ch ?m) ! i = sample ?src ?t"
      using False tm by (simp add: nth_append held_def frames_def)
    ultimately show ?thesis unfolding L by simp
  qed
qed

lemma frames_take:
  "ch < length block \<Longrightarrow> n \<le> length (block ! ch) \<Longrightarrow> frames block ch n = take n (block ! ch)"
  by (rule nth_equalityI) (simp_all add: frames_def channel_of_def sample_def)

lemma push_all_held:
  "well_formed q \<Longrightarrow> ch < length (channels q) \<Longrightarrow> count q + sum_list (map snd ps) \<le> capacity q \<Longrightarrow>
   well_formed (push_all ps q) \<and>
   count (push_all ps q) = count q + sum_list (map snd ps) \<and>
   length (channels (push_all ps q)) = length (channels q) \<and>
   held (push_all ps q) ch = held q ch @ concat (map (\<lambda>(source, n). frames source ch n) ps)"
proof (induction ps arbitrary: q)
  case Nil
  then show ?case by simp
next
  case (Cons p ps)
  obtain source n where p: "p = (source, n)" by (cases p)
  let ?q = "push source n q"
  have fit: "min n (capacity q - count q) = n" using Cons.prems p by simp
  have wfq': "well_formed ?q" using Cons.prems by (simp add: well_formed_push)
  have ch': "ch < length (channels ?q)" using Cons.prems by (simp add: length_push_channels)
  have cnt: "count ?q = count q + n" by (simp add: push_count fit)
  have room: "count ?q + sum_list (map snd ps) \<le> capacity ?q"
    using Cons.prems p by (simp add: cnt push_capacity)
  have h: "held ?q ch = held q ch @ frames source ch n"
    using held_push [OF Cons.prems(1,2), of source n] by (simp only: fit)
  show ?case
    using Cons.IH [OF wfq' ch' room] p
    by (simp add: cnt h length_push_channels)
qed

section \<open>Lossless round trip\<close>

text \<open>
  C1: for every sequence of pushes whose cumulative frame count does not exceed the
  capacity, made on a buffer that holds nothing, pulling the total number of frames returns
  exactly the frames pushed, in the order pushed, for every channel. What the destination
  holds beyond the frames pulled stays as it was.
\<close>

theorem push_pull_round_trip:
  assumes "well_formed q" and "count q = 0"
    and "sum_list (map snd ps) \<le> capacity q"
    and "ch < length (channels q)" and "ch < length destination"
    and "sum_list (map snd ps) \<le> length (destination ! ch)"
    and "list_all (\<lambda>(source, n). ch < length source \<and> n \<le> length (source ! ch)) ps"
  shows "fst (pull destination (sum_list (map snd ps)) (push_all ps q)) ! ch =
           concat (map (\<lambda>(source, n). take n (source ! ch)) ps)
           @ drop (sum_list (map snd ps)) (destination ! ch)"
proof -
  let ?total = "sum_list (map snd ps)"
  let ?q = "push_all ps q"
  let ?pushed = "concat (map (\<lambda>(source, n). frames source ch n) ps)"
  have room: "count q + ?total \<le> capacity q" using assms by simp
  have all: "well_formed ?q \<and> count ?q = count q + ?total \<and>
             length (channels ?q) = length (channels q) \<and> held ?q ch = held q ch @ ?pushed"
    using assms(1,4) room by (rule push_all_held)
  have "held q ch = []"
    using assms(2) by (simp add: held_def)
  then have h: "held ?q ch = ?pushed"
    using all by simp
  have "length (held ?q ch) = count ?q"
    by (simp add: held_def)
  then have len: "length ?pushed = ?total"
    using all h assms(2) by simp
  have same: "?pushed = concat (map (\<lambda>(source, n). take n (source ! ch)) ps)"
    using assms(7) by (induction ps) (auto simp: frames_take)
  have "fst (pull destination ?total ?q) ! ch =
          take (length (destination ! ch)) (take ?total (held ?q ch) @ replicate (?total - count ?q) 0)
          @ drop ?total (destination ! ch)"
    using all assms(4,5) by (intro pull_destination) simp_all
  also have "take ?total (held ?q ch) @ replicate (?total - count ?q) 0 = ?pushed"
    using all h len assms(2) by simp
  also have "take (length (destination ! ch)) ?pushed = ?pushed"
    using len assms(6) by simp
  finally show ?thesis unfolding same .
qed

theorem push_pull_round_trip_witness:
  "fst (pull [[9, 9, 9, 9, 9]] 4
         (push_all [([[1, 2]], 2), ([[3, 4, 5]], 2)]
            \<lparr>capacity = 4, channels = [[0, 0, 0, 0]], write_index = 3, read_index = 3,
             count = 0\<rparr>)) ! 0
   = [1, 2, 3, 4, 9 :: int]"
proof -
  let ?q = "\<lparr>capacity = 4, channels = [[0, 0, 0, 0 :: int]], write_index = 3, read_index = 3,
             count = 0\<rparr>"
  let ?ps = "[([[1, 2]], 2), ([[3, 4, 5 :: int]], 2)]"
  let ?d = "[[9, 9, 9, 9, 9 :: int]]"
  have 1: "well_formed ?q" by (simp add: well_formed_def)
  have 2: "count ?q = 0" by simp
  have 3: "sum_list (map snd ?ps) \<le> capacity ?q" by simp
  have 4: "0 < length (channels ?q)" by simp
  have 5: "0 < length ?d" by simp
  have 6: "sum_list (map snd ?ps) \<le> length (?d ! 0)" by simp
  have 7: "list_all (\<lambda>(source, n). 0 < length source \<and> n \<le> length (source ! 0)) ?ps"
    by simp
  show ?thesis
    using push_pull_round_trip [OF 1 2 3 4 5 6 7] by simp
qed

section \<open>Silence on underrun\<close>

text \<open>
  C2: for every buffer and every pull of more frames than the buffer holds, each channel of
  the destination receives the frames held, verbatim and oldest first, followed by zeros
  for the remaining \<open>frameCount - count\<close> positions; nothing else is written, and what
  lies beyond \<open>frameCount\<close> in the destination stays as it was.
\<close>

theorem pull_underrun_silence:
  assumes "well_formed q" and "count q < frameCount"
    and "ch < length (channels q)" and "ch < length destination"
  shows "fst (pull destination frameCount q) ! ch =
           take (length (destination ! ch)) (held q ch @ replicate (frameCount - count q) 0)
           @ drop frameCount (destination ! ch)"
proof -
  have "take frameCount (held q ch) = held q ch"
    using assms(2) by (simp add: held_def)
  then show ?thesis
    using pull_destination [OF assms(1,4,3), of frameCount] by simp
qed

theorem pull_underrun_silence_witness:
  "fst (pull [[9, 9, 9, 9, 9, 9]] 5
         \<lparr>capacity = 4, channels = [[20, 7, 7, 10]], write_index = 1, read_index = 3,
          count = 2\<rparr>) ! 0
   = [10, 20, 0, 0, 0, 9 :: int]"
proof -
  let ?q = "\<lparr>capacity = 4, channels = [[20, 7, 7, 10 :: int]], write_index = 1,
             read_index = 3, count = 2\<rparr>"
  let ?d = "[[9, 9, 9, 9, 9, 9 :: int]]"
  have 1: "well_formed ?q" by (simp add: well_formed_def)
  have 2: "count ?q < 5" by simp
  have 3: "0 < length (channels ?q)" by simp
  have 4: "0 < length ?d" by simp
  have h: "held ?q 0 = [10, 20]"
    by (simp add: held_def upt_conv_Cons)
  have "fst (pull ?d 5 ?q) ! 0 =
          take (length (?d ! 0)) ([10, 20] @ replicate (5 - count ?q) 0) @ drop 5 (?d ! 0)"
    using pull_underrun_silence [OF 1 2 3 4] unfolding h .
  also have "\<dots> = [10, 20, 0, 0, 0, 9]"
    by (simp add: numeral_eq_Suc)
  finally show ?thesis .
qed

section \<open>The steps of RingBufferWorkletProcessor.process\<close>

lemma host_push_simps:
  "buffer (host_push p input) = push input (kernelBufferSize p) (buffer p)"
  "kernelBufferSize (host_push p input) = kernelBufferSize p"
  "channelCount (host_push p input) = channelCount p"
  "memory (host_push p input) = memory p"
  "heapInputBuffer (host_push p input) = heapInputBuffer p"
  "heapOutputBuffer (host_push p input) = heapOutputBuffer p"
  "kernel (host_push p input) = kernel p"
  "calls (host_push p input) = calls p @ [CallPush (kernelBufferSize p)]"
  by (simp_all add: host_push_def)

lemma kernel_step_kernelBufferSize:
  "kernelBufferSize (kernel_step kernel_process p) = kernelBufferSize p"
  by (simp add: kernel_step_def Let_def split: prod.splits)

lemma kernel_step_calls:
  "calls (kernel_step kernel_process p) =
     calls p @
     (if kernelBufferSize p \<le> framesAvailable (buffer p)
      then [CallPull (kernelBufferSize p), CallKernelProcess, CallPush (kernelBufferSize p)]
      else [])"
  by (simp add: kernel_step_def isFrameAvailable_def Let_def split: prod.splits)

lemma kernel_step_idle:
  "\<not> kernelBufferSize p \<le> framesAvailable (buffer p) \<Longrightarrow> kernel_step kernel_process p = p"
  by (simp add: kernel_step_def isFrameAvailable_def)

text \<open>The step when the kernel runs, with its intermediate values named.\<close>

lemma kernel_step_runs:
  fixes kernel_process :: "'k \<Rightarrow> ('a::zero) list \<Rightarrow> nat \<Rightarrow> nat \<Rightarrow> nat \<Rightarrow> 'k \<times> 'a list"
    and p :: "('a, 'k) RingBufferWorkletProcessor"
  assumes "kernelBufferSize p \<le> framesAvailable (buffer p)"
  defines "K \<equiv> kernelBufferSize p" and "C \<equiv> channelCount p"
  defines "pulled \<equiv> pull (view_block (memory p) (heapInputBuffer p) K C) K (buffer p)"
  defines "staged \<equiv> store_block (memory p) (heapInputBuffer p) K (fst pulled)"
  defines "outcome \<equiv> kernel_process (kernel p) staged (byteOffset (heapInputBuffer p))
                    (byteOffset (heapOutputBuffer p)) C"
  shows "buffer (kernel_step kernel_process p) =
           push (view_block (overwrite (snd outcome) staged) (heapOutputBuffer p) K C) K (snd pulled)"
    and "memory (kernel_step kernel_process p) = overwrite (snd outcome) staged"
    and "kernel (kernel_step kernel_process p) = fst outcome"
  using assms(1)
  by (simp_all add: kernel_step_def isFrameAvailable_def Let_def K_def C_def pulled_def
      staged_def outcome_def split: prod.splits)

lemma kernel_step_count:
  assumes "count (buffer p) \<le> capacity (buffer p)"
  shows "count (buffer (kernel_step kernel_process p)) = count (buffer p)"
proof (cases "kernelBufferSize p \<le> framesAvailable (buffer p)")
  case True
  then have K: "kernelBufferSize p \<le> count (buffer p)"
    by (simp add: framesAvailable_def)
  show ?thesis
    unfolding kernel_step_runs(1) [OF True]
    using assms K by (simp add: push_count pull_count pull_capacity)
next
  case False
  then show ?thesis by (simp add: kernel_step_idle)
qed

lemma host_pull_simps:
  "buffer (snd (host_pull p output)) = snd (pull output (kernelBufferSize p) (buffer p))"
  "calls (snd (host_pull p output)) = calls p @ [CallPull (kernelBufferSize p)]"
  "fst (host_pull p output) = fst (pull output (kernelBufferSize p) (buffer p))"
  by (simp_all add: host_pull_def split: prod.splits)

lemma process_unfold:
  "RingBufferWorkletProcessor_process kernel_process p input output =
     (snd (host_pull (kernel_step kernel_process (host_push p input)) output),
      fst (host_pull (kernel_step kernel_process (host_push p input)) output),
      True)"
  by (simp add: RingBufferWorkletProcessor_process_def Let_def split: prod.splits)

lemma process_calls:
  "calls (fst (RingBufferWorkletProcessor_process kernel_process p input output)) =
     calls p @ CallPush (kernelBufferSize p) #
     (if kernelBufferSize p \<le> count (push input (kernelBufferSize p) (buffer p))
      then [CallPull (kernelBufferSize p), CallKernelProcess, CallPush (kernelBufferSize p)]
      else [])
     @ [CallPull (kernelBufferSize p)]"
  by (simp add: process_unfold host_pull_simps kernel_step_calls kernel_step_kernelBufferSize
      host_push_simps framesAvailable_def)

section \<open>The constructor\<close>

lemma Float32Array_Inr:
  "off mod 4 = 0 \<Longrightarrow> off + 4 * n \<le> L \<Longrightarrow>
   Float32Array L off n = Inr \<lparr>byteOffset = off, view_length = n\<rparr>"
  by (simp add: Float32Array_def)

lemma Float32Array_InrD:
  "Float32Array L off n = Inr v \<Longrightarrow>
   v = \<lparr>byteOffset = off, view_length = n\<rparr> \<and> off mod 4 = 0 \<and> off + 4 * n \<le> L"
  by (auto simp: Float32Array_def split: if_splits)

lemma new_Inr:
  assumes "(K * C) mod 4 = 0" and "5 * (K * C) \<le> 4 * length mem"
  shows "RingBufferWorkletProcessor_new K C mem k =
           Inr \<lparr>kernelBufferSize = K, channelCount = C, buffer = FreeQueue K C, memory = mem,
                heapInputBuffer = \<lparr>byteOffset = 0, view_length = K * C\<rparr>,
                heapOutputBuffer = \<lparr>byteOffset = K * C, view_length = K * C\<rparr>,
                kernel = k, calls = []\<rparr>"
proof -
  have "0 + 4 * (K * C) \<le> 4 * length mem" using assms(2) by arith
  then have 1: "Float32Array (4 * length mem) 0 (K * C) =
                  Inr \<lparr>byteOffset = 0, view_length = K * C\<rparr>"
    by (intro Float32Array_Inr) simp_all
  have "K * C + 4 * (K * C) \<le> 4 * length mem" using assms(2) by arith
  then have 2: "Float32Array (4 * length mem) (K * C) (K * C) =
                  Inr \<lparr>byteOffset = K * C, view_length = K * C\<rparr>"
    using assms(1) by (intro Float32Array_Inr)
  show ?thesis
    by (simp add: RingBufferWorkletProcessor_new_def 1 2)
qed

lemma new_InrD:
  assumes "RingBufferWorkletProcessor_new K C mem k = Inr p"
  shows "p = \<lparr>kernelBufferSize = K, channelCount = C, buffer = FreeQueue K C, memory = mem,
              heapInputBuffer = \<lparr>byteOffset = 0, view_length = K * C\<rparr>,
              heapOutputBuffer = \<lparr>byteOffset = K * C, view_length = K * C\<rparr>,
              kernel = k, calls = []\<rparr>"
    and "(K * C) mod 4 = 0" and "5 * (K * C) \<le> 4 * length mem"
proof -
  obtain heapIn heapOut
    where 1: "Float32Array (4 * length mem) 0 (K * C) = Inr heapIn"
      and 2: "Float32Array (4 * length mem) (K * C) (K * C) = Inr heapOut"
      and p: "p = \<lparr>kernelBufferSize = K, channelCount = C, buffer = FreeQueue K C,
                     memory = mem, heapInputBuffer = heapIn, heapOutputBuffer = heapOut,
                     kernel = k, calls = []\<rparr>"
    using assms by (auto simp: RingBufferWorkletProcessor_new_def split: sum.splits)
  note d1 = Float32Array_InrD [OF 1] and d2 = Float32Array_InrD [OF 2]
  show "p = \<lparr>kernelBufferSize = K, channelCount = C, buffer = FreeQueue K C, memory = mem,
              heapInputBuffer = \<lparr>byteOffset = 0, view_length = K * C\<rparr>,
              heapOutputBuffer = \<lparr>byteOffset = K * C, view_length = K * C\<rparr>,
              kernel = k, calls = []\<rparr>"
    using p d1 d2 by simp
  show "(K * C) mod 4 = 0" using d2 by simp
  show "5 * (K * C) \<le> 4 * length mem" using d2 by arith
qed

lemma new_misaligned:
  "(K * C) mod 4 \<noteq> 0 \<Longrightarrow> 4 * (K * C) \<le> 4 * length mem \<Longrightarrow>
   RingBufferWorkletProcessor_new K C mem k = Inl RangeError"
  by (simp add: RingBufferWorkletProcessor_new_def Float32Array_def)

lemma FreeQueue_simps:
  "capacity (FreeQueue K n) = K"
  "count (FreeQueue K n) = 0"
  "read_index (FreeQueue K n) = 0"
  "write_index (FreeQueue K n) = 0"
  "length (channels (FreeQueue K n)) = n"
  by (simp_all add: FreeQueue_def)

lemma well_formed_FreeQueue: "0 < K \<Longrightarrow> well_formed (FreeQueue K n)"
  by (simp add: well_formed_def FreeQueue_def list_all_length)


lemma new_simps:
  assumes "RingBufferWorkletProcessor_new K C mem k = Inr p"
  shows "kernelBufferSize p = K" and "channelCount p = C" and "buffer p = FreeQueue K C"
    and "memory p = mem" and "calls p = []" and "kernel p = k"
    and "heapInputBuffer p = \<lparr>byteOffset = 0, view_length = K * C\<rparr>"
    and "heapOutputBuffer p = \<lparr>byteOffset = K * C, view_length = K * C\<rparr>"
  using new_InrD(1) [OF assms] by simp_all

lemma first_cycle_calls:
  assumes "RingBufferWorkletProcessor_new K C mem k = Inr p"
  shows "calls (fst (RingBufferWorkletProcessor_process kernel_process p input output)) =
           [CallPush K, CallPull K, CallKernelProcess, CallPush K, CallPull K]"
  by (simp add: process_calls new_simps [OF assms] push_count FreeQueue_simps)




section \<open>The staging areas\<close>






lemma length_overwrite: "length (overwrite new old) = length old"
  by (simp add: overwrite_def)



section \<open>The kernel step\<close>

lemma new_4_1:
  "RingBufferWorkletProcessor_new 4 1 (replicate 16384 0) k =
     Inr (projr (RingBufferWorkletProcessor_new 4 1 (replicate 16384 0) k))"
  by (simp add: new_Inr)







section \<open>The frame counts of the host path\<close>

lemma new_512:
  "RingBufferWorkletProcessor_new 512 1 (replicate 16384 0) k =
     Inr (projr (RingBufferWorkletProcessor_new 512 1 (replicate 16384 0) k))"
  by (simp add: new_Inr)

text \<open>
  C4: the first action of process pushes exactly \<open>H = 128\<close> frames of the host's input
  block. On every processor the constructor builds for \<open>kernelBufferSize = 512\<close> the
  first operation of process is a push of 512 frames: the count passed is the kernel's
  block size.
\<close>

theorem process_first_push_512:
  assumes "RingBufferWorkletProcessor_new 512 1 mem k = Inr p"
  shows "calls (fst (RingBufferWorkletProcessor_process kernel_process p input output)) ! 0
           = CallPush 512
         \<and> (512 :: nat) \<noteq> NUM_FRAMES"
  by (simp add: first_cycle_calls [OF assms] NUM_FRAMES_def)

theorem process_first_push_512_witness:
  "calls (fst (RingBufferWorkletProcessor_process writes_100 processor_512
                 [replicate 128 1] [replicate 128 0])) ! 0 = CallPush 512"
  using process_first_push_512 [OF new_512, of writes_100 "()" "[replicate 128 1]"
      "[replicate 128 0]"]
  by simp

text \<open>
  C5: the last action of process pulls exactly \<open>H = 128\<close> frames into the host's output
  block. On every processor the constructor builds for \<open>kernelBufferSize = 512\<close> the last
  operation of process is a pull of 512 frames.
\<close>

theorem process_last_pull_512:
  assumes "RingBufferWorkletProcessor_new 512 1 mem k = Inr p"
  shows "last (calls (fst (RingBufferWorkletProcessor_process kernel_process p input output)))
           = CallPull 512
         \<and> (512 :: nat) \<noteq> NUM_FRAMES"
  by (simp add: first_cycle_calls [OF assms] NUM_FRAMES_def)

theorem process_last_pull_512_witness:
  "last (calls (fst (RingBufferWorkletProcessor_process writes_100 processor_512
                       [replicate 128 1] [replicate 128 0]))) = CallPull 512"
  using process_last_pull_512 [OF new_512, of writes_100 "()" "[replicate 128 1]"
      "[replicate 128 0]"]
  by simp

text \<open>
  C6: with \<open>H = 128\<close> and \<open>K = 512\<close> the first three cycles invoke the kernel zero
  times. On every processor the constructor builds for \<open>kernelBufferSize = 512\<close> the
  first cycle already invokes the kernel once, whatever the host's input block is.
\<close>

theorem first_cycle_invokes_kernel:
  assumes "RingBufferWorkletProcessor_new 512 1 mem k = Inr p"
  shows "kernel_calls (calls (fst (RingBufferWorkletProcessor_process kernel_process p
                                     input output))) = 1"
  by (simp add: first_cycle_calls [OF assms])

theorem first_cycle_invokes_kernel_witness:
  "kernel_calls (calls (fst (RingBufferWorkletProcessor_process writes_100 processor_512
                               [replicate 128 1] [replicate 128 0]))) = 1"
  using first_cycle_invokes_kernel [OF new_512, of writes_100 "()" "[replicate 128 1]"
      "[replicate 128 0]"]
  by simp

section \<open>The balance of pushes and pulls\<close>

lemma process_count:
  assumes "well_formed (buffer p)"
    and "count (buffer p) + kernelBufferSize p \<le> capacity (buffer p)"
  shows "count (buffer (fst (RingBufferWorkletProcessor_process kernel_process p input output)))
           = count (buffer p)"
proof -
  let ?K = "kernelBufferSize p"
  let ?p1 = "host_push p input"
  let ?p2 = "kernel_step kernel_process ?p1"
  have c1: "count (buffer ?p1) = count (buffer p) + ?K"
    using assms(2) by (simp add: host_push_simps push_count)
  have "well_formed (buffer ?p1)"
    using assms(1) by (simp add: host_push_simps well_formed_push)
  then have "count (buffer ?p1) \<le> capacity (buffer ?p1)"
    by (simp add: well_formed_def)
  then have c2: "count (buffer ?p2) = count (buffer p) + ?K"
    using c1 by (simp add: kernel_step_count)
  show ?thesis
    by (simp add: process_unfold host_pull_simps pull_count c2 kernel_step_kernelBufferSize
        host_push_simps)
qed

text \<open>
  C9: every invocation of process pushes and pulls equal total frame counts on the one
  shared buffer: one push and one pull on the host path, and one pull and one push more
  when the kernel branch runs. So, when no push overflows, the buffer holds as many frames
  after a process call as before it.
\<close>

theorem process_balanced:
  "pushed_frames (drop (length (calls p))
      (calls (fst (RingBufferWorkletProcessor_process kernel_process p input output)))) =
   pulled_frames (drop (length (calls p))
      (calls (fst (RingBufferWorkletProcessor_process kernel_process p input output))))
   \<and> (well_formed (buffer p) \<and>
        count (buffer p) + kernelBufferSize p \<le> capacity (buffer p) \<longrightarrow>
        count (buffer (fst (RingBufferWorkletProcessor_process kernel_process p input output)))
          = count (buffer p))"
  by (simp add: process_calls process_count)

theorem process_balanced_witness:
  "pushed_frames (drop (length (calls processor_4))
      (calls (fst (RingBufferWorkletProcessor_process writes_100 processor_4
                     [replicate 128 1] [replicate 128 0])))) = 8
   \<and> pulled_frames (drop (length (calls processor_4))
      (calls (fst (RingBufferWorkletProcessor_process writes_100 processor_4
                     [replicate 128 1] [replicate 128 0])))) = 8
   \<and> count (buffer (fst (RingBufferWorkletProcessor_process writes_100 processor_4
                     [replicate 128 1] [replicate 128 0]))) = 0"
proof -
  define p0 :: "(int, unit) RingBufferWorkletProcessor" where "p0 = processor_4"
  have new: "RingBufferWorkletProcessor_new 4 1 one_page () = Inr p0"
    unfolding p0_def by (rule new_4_1)
  note n = new_simps [OF new]
  have w: "well_formed (buffer p0)"
    by (simp add: n well_formed_FreeQueue)
  have r: "count (buffer p0) + kernelBufferSize p0 \<le> capacity (buffer p0)"
    by (simp add: n FreeQueue_simps)
  have "pushed_frames (drop (length (calls p0))
      (calls (fst (RingBufferWorkletProcessor_process writes_100 p0
                     [replicate 128 1] [replicate 128 0])))) = 8
   \<and> pulled_frames (drop (length (calls p0))
      (calls (fst (RingBufferWorkletProcessor_process writes_100 p0
                     [replicate 128 1] [replicate 128 0])))) = 8
   \<and> count (buffer (fst (RingBufferWorkletProcessor_process writes_100 p0
                     [replicate 128 1] [replicate 128 0]))) = 0"
    using process_balanced [of p0 writes_100 "[replicate 128 1]" "[replicate 128 0]"] w r
    by (simp add: n(1,2,4-8) FreeQueue_simps first_cycle_calls [OF new] n(3) [THEN arg_cong, of count])
  then show ?thesis unfolding p0_def .
qed

section \<open>The returned flag\<close>

lemma length_rendered_view:
  "length (getChannelData (setChannelData (overwrite new (getChannelData q)) q)) =
   length (getChannelData q)"
  by (simp add: getChannelData_def setChannelData_def length_overwrite split: list.splits)

text \<open>
  C8 as the spec states it: both process functions return true on every invocation, for
  every input. The process function of the synthesizer, on a new processor, throws a
  TypeError when the host passes no output, and a RangeError when the first channel of
  the first output has 64 frames.
\<close>

theorem process_returns_true_counterexample:
  "SynthProcessor_process (\<lambda>history view n. replicate n 1)
     (SynthProcessor_new :: int SynthProcessor) [] = Inl TypeError
   \<and> SynthProcessor_process (\<lambda>history view n. replicate n 1)
     (SynthProcessor_new :: int SynthProcessor) [[replicate 64 0]] = Inl RangeError"
proof -
  have "length (getChannelData (combinedBuffer (SynthProcessor_new :: int SynthProcessor))) = 128"
    by (simp add: SynthProcessor_new_def getChannelData_def FreeQueue_def NUM_FRAMES_def)
  then have "length (getChannelData (setChannelData
                (overwrite (replicate NUM_FRAMES 1)
                   (getChannelData (combinedBuffer (SynthProcessor_new :: int SynthProcessor))))
                (combinedBuffer (SynthProcessor_new :: int SynthProcessor)))) = 128"
    by (simp only: length_rendered_view)
  then show ?thesis
    by (simp add: SynthProcessor_process_def typed_array_set_def Let_def)
qed

text \<open>
  C8 as amended: the process function of the ring-buffer processor returns true on every
  invocation, for every processor state and every input and output block. That of the
  synthesizer returns true whenever the host's first output has a first channel that is
  at least as long as the channel data of the combined buffer, as the host's 128-frame
  block is. It throws a TypeError when the first output or its first channel is missing
  and a RangeError when that channel is shorter, and it never returns false.
\<close>

theorem process_returns_true:
  "snd (snd (RingBufferWorkletProcessor_process kernel_process p input output)) = True
   \<and> (length (getChannelData (combinedBuffer sp)) \<le> length outputBuffer \<longrightarrow>
        (\<exists>sp' written.
           SynthProcessor_process render sp ((outputBuffer # others) # rest) =
             Inr (sp', written, True)))
   \<and> (length outputBuffer < length (getChannelData (combinedBuffer sp)) \<longrightarrow>
        SynthProcessor_process render sp ((outputBuffer # others) # rest) = Inl RangeError)
   \<and> SynthProcessor_process render sp [] = Inl TypeError
   \<and> SynthProcessor_process render sp ([] # rest) = Inl TypeError
   \<and> (\<forall>r. SynthProcessor_process render sp outputs = Inr r \<longrightarrow> snd (snd r) = True)"
proof (intro conjI impI allI)
  show "snd (snd (RingBufferWorkletProcessor_process kernel_process p input output)) = True"
    by (simp add: process_unfold)
next
  assume "length (getChannelData (combinedBuffer sp)) \<le> length outputBuffer"
  then show "\<exists>sp' written.
           SynthProcessor_process render sp ((outputBuffer # others) # rest) =
             Inr (sp', written, True)"
    by (simp add: SynthProcessor_process_def typed_array_set_def Let_def length_rendered_view)
next
  assume "length outputBuffer < length (getChannelData (combinedBuffer sp))"
  then show "SynthProcessor_process render sp ((outputBuffer # others) # rest) = Inl RangeError"
    by (simp add: SynthProcessor_process_def typed_array_set_def Let_def length_rendered_view)
next
  show "SynthProcessor_process render sp [] = Inl TypeError"
    by (simp add: SynthProcessor_process_def)
next
  show "SynthProcessor_process render sp ([] # rest) = Inl TypeError"
    by (simp add: SynthProcessor_process_def)
next
  fix r
  assume "SynthProcessor_process render sp outputs = Inr r"
  then show "snd (snd r) = True"
    by (auto simp: SynthProcessor_process_def Let_def split: list.splits sum.splits)
qed

theorem process_returns_true_witness:
  "snd (snd (RingBufferWorkletProcessor_process writes_100 processor_4
               [replicate 128 1] [replicate 128 0])) = True
   \<and> (\<exists>sp' written.
         SynthProcessor_process (\<lambda>history view n. replicate n 1) SynthProcessor_new
           [[replicate 128 (0 :: int)]] = Inr (sp', written, True))"
proof -
  have "length (getChannelData (combinedBuffer (SynthProcessor_new :: int SynthProcessor)))
          \<le> length (replicate 128 (0 :: int))"
    by (simp add: SynthProcessor_new_def getChannelData_def FreeQueue_def NUM_FRAMES_def)
  then show ?thesis
    using process_returns_true [of writes_100 processor_4 "[replicate 128 1]"
        "[replicate 128 0]" "SynthProcessor_new :: int SynthProcessor"
        "replicate 128 (0 :: int)" "\<lambda>history view n. replicate n 1" "[]" "[]" "[]"]
    by blast
qed

section \<open>The count after an interleaving of pushes and pulls\<close>

lemma push_count_clamped:
  "count q \<le> capacity q \<Longrightarrow> count (push source n q) = min (capacity q) (count q + n)"
  by (simp add: push_count)

lemma run_ops_count:
  "well_formed q \<Longrightarrow>
   count (run_ops P Q ops q) = clamped_count (capacity q) P Q ops (count q)"
proof (induction ops arbitrary: q)
  case Nil
  then show ?case by simp
next
  case (Cons op ops)
  show ?case
  proof (cases op)
    case (Push source)
    have "count q \<le> capacity q" using Cons.prems by (simp add: well_formed_def)
    then have "count (push source P q) = min (capacity q) (count q + P)"
      by (rule push_count_clamped)
    then show ?thesis
      using Cons.IH [of "push source P q"] Cons.prems Push
      by (simp add: well_formed_push push_capacity)
  next
    case (Pull destination)
    show ?thesis
      using Cons.IH [of "snd (pull destination Q q)"] Cons.prems Pull
      by (simp add: well_formed_pull pull_capacity pull_count)
  qed
qed

lemma never_clamped_count:
  "never_clamped C P Q ops c \<Longrightarrow>
   int (clamped_count C P Q ops c) =
     int c + int (length (filter is_push ops)) * int P
     - int (length (filter (\<lambda>op. \<not> is_push op) ops)) * int Q"
proof (induction ops arbitrary: c)
  case Nil
  then show ?case by simp
next
  case (Cons op ops)
  show ?case
  proof (cases op)
    case (Push source)
    then show ?thesis
      using Cons.IH [of "c + P"] Cons.prems by (simp add: algebra_simps)
  next
    case (Pull destination)
    then show ?thesis
      using Cons.IH [of "c - Q"] Cons.prems by (simp add: algebra_simps)
  qed
qed

lemma push_zero: "well_formed q \<Longrightarrow> push source 0 q = q"
proof -
  assume q: "well_formed q"
  have "write_index q < capacity q" using q by (simp add: well_formed_def)
  moreover have "map (\<lambda>ch. channels q ! ch) [0..<length (channels q)] = channels q"
    by (rule map_nth)
  ultimately show ?thesis by (simp add: push_def)
qed

lemma pull_zero: "well_formed q \<Longrightarrow> pull destination 0 q = (destination, q)"
proof -
  assume q: "well_formed q"
  have "read_index q < capacity q" using q by (simp add: well_formed_def)
  moreover have "map (\<lambda>ch. destination ! ch) [0..<length destination] = destination"
    by (rule map_nth)
  ultimately show ?thesis by (simp add: pull_def cong: if_cong)
qed

text \<open>
  C7 as the spec states it: after any interleaving of \<open>N\<close> pushes of size \<open>P\<close> and
  \<open>M\<close> pulls of size \<open>Q\<close> the frames available are \<open>N \<cdot> P - M \<cdot> Q\<close> clamped to
  the capacity. A pull of one frame from a new buffer followed by a push of one frame
  leaves one frame available, where the formula gives zero.
\<close>

theorem frames_available_formula_counterexample:
  "int (framesAvailable (run_ops 1 1 [Pull [[9]], Push [[5]]] (FreeQueue 4 1 :: int FrameBuffer)))
     \<noteq> claimed_frames_available 4 1 1 [Pull [[9]], Push [[5 :: int]]]"
proof -
  have w: "well_formed (FreeQueue 4 1 :: int FrameBuffer)"
    by (simp add: well_formed_FreeQueue)
  have "count (run_ops 1 1 [Pull [[9]], Push [[5]]] (FreeQueue 4 1 :: int FrameBuffer)) = 1"
    unfolding run_ops_count [OF w] by (simp add: FreeQueue_simps)
  then show ?thesis
    by (simp add: framesAvailable_def claimed_frames_available_def)
qed

text \<open>
  C7 as amended: after any interleaving of pushes of size \<open>P\<close> and pulls of size \<open>Q\<close>
  on a well-formed buffer, the frames available are the count clamped at every operation,
  at the capacity by a push and at zero by a pull. When no operation of the interleaving
  overflows or underruns, this is the count before plus \<open>N \<cdot> P - M \<cdot> Q\<close>. Pushing a
  zero-length block and pulling a zero-length block each leave the buffer state unchanged.
\<close>

theorem frames_available_clamped_stepwise:
  assumes "well_formed q"
  shows "framesAvailable (run_ops P Q ops q) = clamped_count (capacity q) P Q ops (count q)
       \<and> (never_clamped (capacity q) P Q ops (count q) \<longrightarrow>
            int (framesAvailable (run_ops P Q ops q)) =
              int (count q) + int (length (filter is_push ops)) * int P
              - int (length (filter (\<lambda>op. \<not> is_push op) ops)) * int Q)
       \<and> push source 0 q = q
       \<and> pull destination 0 q = (destination, q)"
  using assms
  by (simp add: framesAvailable_def run_ops_count never_clamped_count push_zero pull_zero)

theorem frames_available_clamped_stepwise_witness:
  "framesAvailable (run_ops 2 1 [Push [[1, 2]], Pull [[9]], Push [[3, 4]], Pull [[9]]]
      (FreeQueue 4 1 :: int FrameBuffer)) = 2
   \<and> push [[7]] 0 (FreeQueue 4 1 :: int FrameBuffer) = FreeQueue 4 1
   \<and> pull [[9]] 0 (FreeQueue 4 1 :: int FrameBuffer) = ([[9]], FreeQueue 4 1)"
proof -
  have w: "well_formed (FreeQueue 4 1 :: int FrameBuffer)"
    by (simp add: well_formed_FreeQueue)
  have n: "never_clamped (capacity (FreeQueue 4 1 :: int FrameBuffer)) 2 1
             [Push [[1, 2]], Pull [[9]], Push [[3, 4]], Pull [[9 :: int]]]
             (count (FreeQueue 4 1 :: int FrameBuffer))"
    by (simp add: FreeQueue_simps)
  have "int (framesAvailable (run_ops 2 1 [Push [[1, 2]], Pull [[9]], Push [[3, 4]], Pull [[9]]]
      (FreeQueue 4 1 :: int FrameBuffer))) = 2"
    using frames_available_clamped_stepwise [OF w, of 2 1
        "[Push [[1, 2]], Pull [[9]], Push [[3, 4]], Pull [[9]]]" "[[7]]" "[[9]]"] n
    by (simp add: FreeQueue_simps)
  moreover have "push [[7]] 0 (FreeQueue 4 1 :: int FrameBuffer) = FreeQueue 4 1"
    using frames_available_clamped_stepwise [OF w, of 2 1 "[]" "[[7]]" "[[9]]"] by simp
  moreover have "pull [[9]] 0 (FreeQueue 4 1 :: int FrameBuffer) = ([[9]], FreeQueue 4 1)"
    using frames_available_clamped_stepwise [OF w, of 2 1 "[]" "[[7]]" "[[9]]"] by simp
  ultimately show ?thesis by simp
qed

end
